theory Spec2Isabelle
  imports Main "HOL-Library.Char_ord" "HOL-Library.List_Lexorder" "HOL-Library.Multiset"
    "HOL-Library.AList" "HOL-Library.Sublist"
begin

section \<open>The document tree of yd (src/yd/yamldiff.py)\<close>

text \<open>
  The engine works on what the YAML parser returns: Python dicts, lists and scalars.
  A dict keeps its keys unique and in insertion order, so a mapping is an association
  list; \<open>wf_node\<close> says that the keys of every mapping are distinct.  Keys are
  strings.  Scalars are \<open>None\<close>, booleans, integers and strings; floating-point
  numbers are left out of the model.  Characters are the 256 characters of
  \<^typ>\<open>char\<close>, read as the code points 0 to 255.

  Python has one value \<open>None\<close> for a YAML null and for the default of the fields
  \<open>old_value\<close> and \<open>new_value\<close> of a \<open>DiffItem\<close>; the model has one value for
  both as well, \<open>py_None\<close>.
\<close>

datatype scalar = SNull | SBool bool | SInt int | SStr string

datatype node = Scalar scalar | Seq "node list" | Map "(string \<times> node) list"

datatype error = StopIteration | TypeError | AttributeError

datatype pytype = TNone | TBool | TInt | TStr | TList | TDict

definition py_None :: node where
  "py_None = Scalar SNull"

fun py_type :: "node \<Rightarrow> pytype" where
  "py_type (Scalar SNull) = TNone"
| "py_type (Scalar (SBool b)) = TBool"
| "py_type (Scalar (SInt i)) = TInt"
| "py_type (Scalar (SStr s)) = TStr"
| "py_type (Seq xs) = TList"
| "py_type (Map kvs) = TDict"

fun wf_node :: "node \<Rightarrow> bool" where
  "wf_node (Scalar s) = True"
| "wf_node (Seq xs) = list_all wf_node xs"
| "wf_node (Map kvs) = (distinct (map fst kvs) \<and> list_all wf_node (map snd kvs))"

text \<open>\<open>d[k]\<close> for a key that the callers have found in \<open>d\<close>, and \<open>k in d\<close>.\<close>

definition getitem :: "(string \<times> node) list \<Rightarrow> string \<Rightarrow> node" where
  "getitem kvs k = (case map_of kvs k of Some v \<Rightarrow> v | None \<Rightarrow> py_None)"

definition has_key :: "(string \<times> node) list \<Rightarrow> string \<Rightarrow> bool" where
  "has_key kvs k = (k \<in> set (map fst kvs))"

subsection \<open>\<open>str\<close> and \<open>repr\<close> of a value\<close>

text \<open>
  \<open>_get_sort_key\<close> applies Python's \<open>str\<close> to a value of the document.  On a string
  it is the string, on every other value it is \<open>repr\<close>: decimal digits, \<open>True\<close>,
  \<open>False\<close>, \<open>None\<close>, and for lists and dicts the \<open>repr\<close> of the parts between
  brackets.  \<open>repr\<close> of a string quotes it with \<open>'\<close>, or with \<open>"\<close> when the string
  has a \<open>'\<close> and no \<open>"\<close>, and escapes the backslash, the quote and what is not
  printable.
\<close>

definition digit_char :: "nat \<Rightarrow> char" where
  "digit_char n = (if n < 10 then char_of (48 + n) else char_of (87 + n))"

fun str_nat :: "nat \<Rightarrow> string" where
  "str_nat n = (if n < 10 then [digit_char n] else str_nat (n div 10) @ [digit_char (n mod 10)])"

declare str_nat.simps [simp del]

definition str_int :: "int \<Rightarrow> string" where
  "str_int i = (if i < 0 then CHR ''-'' # str_nat (nat (- i)) else str_nat (nat i))"

definition is_printable :: "char \<Rightarrow> bool" where
  "is_printable c = (let n = (of_char c :: nat) in
     (32 \<le> n \<and> n \<le> 126) \<or> (161 \<le> n \<and> n \<noteq> 173))"

definition repr_char :: "char \<Rightarrow> char \<Rightarrow> string" where
  "repr_char q c =
     (if c = CHR 0x5C then [CHR 0x5C, CHR 0x5C]
      else if c = q then [CHR 0x5C, q]
      else if c = CHR 0x09 then [CHR 0x5C, CHR ''t'']
      else if c = CHR 0x0A then [CHR 0x5C, CHR ''n'']
      else if c = CHR 0x0D then [CHR 0x5C, CHR ''r'']
      else if is_printable c then [c]
      else [CHR 0x5C, CHR ''x'', digit_char ((of_char c :: nat) div 16),
            digit_char ((of_char c :: nat) mod 16)])"

definition repr_str :: "string \<Rightarrow> string" where
  "repr_str s =
     (let q = (if CHR 0x27 \<in> set s \<and> CHR 0x22 \<notin> set s then CHR 0x22 else CHR 0x27)
      in q # concat (map (repr_char q) s) @ [q])"

fun join_str :: "string \<Rightarrow> string list \<Rightarrow> string" where
  "join_str sep [] = []"
| "join_str sep [x] = x"
| "join_str sep (x # y # ys) = x @ sep @ join_str sep (y # ys)"

fun repr_scalar :: "scalar \<Rightarrow> string" where
  "repr_scalar SNull = ''None''"
| "repr_scalar (SBool b) = (if b then ''True'' else ''False'')"
| "repr_scalar (SInt i) = str_int i"
| "repr_scalar (SStr s) = repr_str s"

fun py_repr :: "node \<Rightarrow> string" where
  "py_repr (Scalar s) = repr_scalar s"
| "py_repr (Seq xs) = ''['' @ join_str '', '' (map py_repr xs) @ '']''"
| "py_repr (Map kvs) =
     ''{'' @ join_str '', '' (map (\<lambda>kv. repr_str (fst kv) @ '': '' @ py_repr (snd kv)) kvs) @ ''}''"

fun py_str :: "node \<Rightarrow> string" where
  "py_str (Scalar (SStr s)) = s"
| "py_str x = py_repr x"

section \<open>The normalizer\<close>

text \<open>
  \<open>_should_sort_list\<close>: the list is not empty, its first item is a dict with a key,
  and either that dict has the key \<open>name\<close> or every later item is a dict with the
  same set of keys.
\<close>

fun same_keys :: "string set \<Rightarrow> node \<Rightarrow> bool" where
  "same_keys ks (Map kvs) = (set (map fst kvs) = ks)"
| "same_keys ks x = False"

fun should_sort_list :: "node list \<Rightarrow> bool" where
  "should_sort_list [] = False"
| "should_sort_list (Map kvs # rest) =
     (if kvs = [] then False
      else if has_key kvs ''name'' then True
      else list_all (same_keys (set (map fst kvs))) rest)"
| "should_sort_list (x # rest) = False"

text \<open>
  \<open>_get_sort_key\<close>: \<open>str\<close> of the value under \<open>name\<close>, else \<open>str\<close> of the value
  under the first key, else (no dict) \<open>str\<close> of the item.  On a dict with no key,
  \<open>next(iter(item.keys()))\<close> raises \<open>StopIteration\<close>.
\<close>

fun get_sort_key :: "node \<Rightarrow> error + string" where
  "get_sort_key (Map kvs) =
     (if has_key kvs ''name'' then Inr (py_str (getitem kvs ''name''))
      else (case kvs of [] \<Rightarrow> Inl StopIteration
            | kv # rest \<Rightarrow> Inr (py_str (getitem kvs (fst kv)))))"
| "get_sort_key x = Inr (py_str x)"

text \<open>
  \<open>sorted(data, key=self._get_sort_key)\<close>: the key of every item is computed, in
  order, and an exception of the key function leaves \<open>sorted\<close>; then the items are
  sorted by their keys, strings compared by code point, equal keys keeping their order.
\<close>

fun sort_keys :: "node list \<Rightarrow> error + string list" where
  "sort_keys [] = Inr []"
| "sort_keys (x # xs) =
     (case get_sort_key x of Inl e \<Rightarrow> Inl e
      | Inr k \<Rightarrow> (case sort_keys xs of Inl e \<Rightarrow> Inl e | Inr ks \<Rightarrow> Inr (k # ks)))"

definition sorted_py :: "node list \<Rightarrow> error + node list" where
  "sorted_py xs =
     (case sort_keys xs of Inl e \<Rightarrow> Inl e
      | Inr ks \<Rightarrow> Inr (map snd (sort_key fst (zip ks xs))))"

lemma sort_keys_length: "sort_keys xs = Inr ks \<Longrightarrow> length ks = length xs"
  by (induction xs arbitrary: ks) (auto split: sum.splits)

lemma sorted_py_mset: "sorted_py xs = Inr ys \<Longrightarrow> mset ys = mset xs"
proof -
  assume a: "sorted_py xs = Inr ys"
  then obtain ks where ks: "sort_keys xs = Inr ks" and ys: "ys = map snd (sort_key fst (zip ks xs))"
    by (auto simp: sorted_py_def split: sum.splits)
  have "mset ys = image_mset snd (mset (zip ks xs))"
    unfolding ys by simp
  also have "\<dots> = mset (map snd (zip ks xs))" by simp
  also have "\<dots> = mset xs" using sort_keys_length [OF ks] by simp
  finally show ?thesis .
qed


text \<open>
  \<open>normalize_data(data, path)\<close>.  The argument \<open>path\<close> is only formatted into the
  \<open>path\<close> of the recursive calls and never read, so the model leaves it out.  A dict
  keeps its keys and their order, and its values are normalized; the items of a list
  are sorted first when \<open>_should_sort_list\<close> says so, and then normalized.
\<close>

function normalize_data :: "node \<Rightarrow> error + node"
  and normalize_items :: "node list \<Rightarrow> error + node list"
  and normalize_values :: "(string \<times> node) list \<Rightarrow> error + (string \<times> node) list"
where
  "normalize_data (Scalar s) = Inr (Scalar s)"
| "normalize_data (Map kvs) =
     (case normalize_values kvs of Inl e \<Rightarrow> Inl e | Inr normalized \<Rightarrow> Inr (Map normalized))"
| "normalize_data (Seq xs) =
     (if should_sort_list xs then
        (case sorted_py xs of Inl e \<Rightarrow> Inl e
         | Inr sorted_data \<Rightarrow>
             (case normalize_items sorted_data of Inl e \<Rightarrow> Inl e | Inr ys \<Rightarrow> Inr (Seq ys)))
      else (case normalize_items xs of Inl e \<Rightarrow> Inl e | Inr ys \<Rightarrow> Inr (Seq ys)))"
| "normalize_items [] = Inr []"
| "normalize_items (x # xs) =
     (case normalize_data x of Inl e \<Rightarrow> Inl e
      | Inr y \<Rightarrow> (case normalize_items xs of Inl e \<Rightarrow> Inl e | Inr ys \<Rightarrow> Inr (y # ys)))"
| "normalize_values [] = Inr []"
| "normalize_values (kv # kvs) =
     (case normalize_data (snd kv) of Inl e \<Rightarrow> Inl e
      | Inr v \<Rightarrow> (case normalize_values kvs of Inl e \<Rightarrow> Inl e
                  | Inr normalized \<Rightarrow> Inr ((fst kv, v) # normalized)))"
  by pat_completeness auto

lemma size_list_mset: "mset ys = mset xs \<Longrightarrow> size_list f ys = size_list f xs"
proof -
  assume a: "mset ys = mset xs"
  have "sum_list (map f ys) = sum_mset (image_mset f (mset ys))"
    by (metis mset_map sum_mset_sum_list)
  also have "\<dots> = sum_list (map f xs)"
    unfolding a by (metis mset_map sum_mset_sum_list)
  finally have "sum_list (map f ys) = sum_list (map f xs)" .
  moreover have "length ys = length xs"
    using a by (rule mset_eq_length)
  ultimately show ?thesis
    by (simp add: size_list_conv_sum_list)
qed

termination normalize_data
proof (relation "measure (case_sum size (case_sum (size_list size)
          (size_list (size_prod (\<lambda>k. 0) size))))", goal_cases)
  case 1
  show ?case by simp
next
  case (2 kvs)
  show ?case by simp
next
  case (3 xs sorted_data)
  then show ?case by (simp add: size_list_mset [OF sorted_py_mset])
next
  case (4 xs)
  show ?case by simp
next
  case (5 x xs)
  show ?case by simp
next
  case (6 x xs y)
  show ?case by simp
next
  case (7 kv kvs)
  show ?case by (cases kv) simp
next
  case (8 kv kvs v)
  show ?case by simp
qed

section \<open>The comparator\<close>

datatype ChangeType = ADDED | REMOVED | MODIFIED

record DiffItem =
  change_type :: ChangeType
  path :: "string list"
  old_value :: node
  new_value :: node

text \<open>
  The iteration order of a Python \<open>set\<close> of strings is fixed by the hashes of the
  running interpreter, not by the program.  The model takes it as a parameter \<open>so\<close>:
  \<open>set_iter so ks\<close> lists the members of the set built from \<open>ks\<close>, each once, in the
  order \<open>so\<close> gives them; an \<open>so\<close> that returns anything but a rearrangement is
  ignored.
\<close>

type_synonym set_order = "string list \<Rightarrow> string list"

definition set_iter :: "set_order \<Rightarrow> string list \<Rightarrow> string list" where
  "set_iter so ks =
     (let ds = remdups ks; r = so ds in if distinct r \<and> set r = set ds then r else ds)"

text \<open>A \<open>for\<close> loop whose body may raise: the exception leaves the loop.\<close>

fun for_each :: "('a \<Rightarrow> 's \<Rightarrow> error + 's) \<Rightarrow> 'a list \<Rightarrow> 's \<Rightarrow> error + 's" where
  "for_each body [] s = Inr s"
| "for_each body (x # xs) s =
     (case body x s of Inl e \<Rightarrow> Inl e | Inr s' \<Rightarrow> for_each body xs s')"

text \<open>The path segments: a key as it is, \<open>f"[{i}]"\<close> for an index, \<open>f"[{key}]"\<close> for a sort key.\<close>

definition field_segment :: "string \<Rightarrow> string" where
  "field_segment key = key"

definition index_segment :: "nat \<Rightarrow> string" where
  "index_segment i = ''['' @ str_nat i @ '']''"

definition key_segment :: "string \<Rightarrow> string" where
  "key_segment key = ''['' @ key @ '']''"

text \<open>
  The methods below append to \<open>self.differences\<close>, which the model passes in and
  returns (\<open>ds\<close>), and they call \<open>self.compare\<close>, which the model passes in as
  \<open>cmp\<close>; \<open>compare\<close> then hands itself over.  An exception leaves the whole call, so
  the model returns it in place of the list.
\<close>

type_synonym compare_fn =
  "node \<Rightarrow> node \<Rightarrow> string list \<Rightarrow> DiffItem list \<Rightarrow> error + DiffItem list"

definition compare_dicts ::
  "compare_fn \<Rightarrow> set_order \<Rightarrow> (string \<times> node) list \<Rightarrow> (string \<times> node) list \<Rightarrow>
     string list \<Rightarrow> DiffItem list \<Rightarrow> error + DiffItem list" where
  "compare_dicts cmp so left right p ds =
     (let left_keys = map fst left;
          right_keys = map fst right;
          ds1 = ds @ map (\<lambda>key. \<lparr>change_type = ADDED, path = p @ [field_segment key],
                                   old_value = py_None, new_value = getitem right key\<rparr>)
                         (set_iter so (filter (\<lambda>k. k \<notin> set left_keys) right_keys));
          ds2 = ds1 @ map (\<lambda>key. \<lparr>change_type = REMOVED, path = p @ [field_segment key],
                                    old_value = getitem left key, new_value = py_None\<rparr>)
                          (set_iter so (filter (\<lambda>k. k \<notin> set right_keys) left_keys))
      in for_each (\<lambda>key. cmp (getitem left key) (getitem right key) (p @ [field_segment key]))
           (set_iter so (filter (\<lambda>k. k \<in> set right_keys) left_keys)) ds2)"

text \<open>The dict comprehension \<open>{self._get_sort_key(item): item for item in left}\<close>:
  a key that comes again keeps its place and takes the later item.\<close>

fun key_map :: "node list \<Rightarrow> (string \<times> node) list \<Rightarrow> error + (string \<times> node) list" where
  "key_map [] m = Inr m"
| "key_map (item # items) m =
     (case get_sort_key item of Inl e \<Rightarrow> Inl e
      | Inr k \<Rightarrow> key_map items (AList.update k item m))"

definition compare_sorted_lists ::
  "compare_fn \<Rightarrow> set_order \<Rightarrow> node list \<Rightarrow> node list \<Rightarrow>
     string list \<Rightarrow> DiffItem list \<Rightarrow> error + DiffItem list" where
  "compare_sorted_lists cmp so left right p ds =
     (case key_map left [] of Inl e \<Rightarrow> Inl e
      | Inr left_map \<Rightarrow>
     (case key_map right [] of Inl e \<Rightarrow> Inl e
      | Inr right_map \<Rightarrow>
       (let left_keys = map fst left_map;
            right_keys = map fst right_map;
            ds1 = ds @ map (\<lambda>key. \<lparr>change_type = ADDED, path = p @ [key_segment key],
                                     old_value = py_None, new_value = getitem right_map key\<rparr>)
                           (set_iter so (filter (\<lambda>k. k \<notin> set left_keys) right_keys));
            ds2 = ds1 @ map (\<lambda>key. \<lparr>change_type = REMOVED, path = p @ [key_segment key],
                                      old_value = getitem left_map key, new_value = py_None\<rparr>)
                            (set_iter so (filter (\<lambda>k. k \<notin> set right_keys) left_keys))
        in for_each (\<lambda>key. cmp (getitem left_map key) (getitem right_map key)
                                (p @ [key_segment key]))
             (set_iter so (filter (\<lambda>k. k \<in> set right_keys) left_keys)) ds2)))"

definition compare_ordered_lists ::
  "compare_fn \<Rightarrow> node list \<Rightarrow> node list \<Rightarrow>
     string list \<Rightarrow> DiffItem list \<Rightarrow> error + DiffItem list" where
  "compare_ordered_lists cmp left right p ds =
     (let left_len = length left;
          right_len = length right;
          min_len = min left_len right_len
      in (case for_each (\<lambda>i. cmp (left ! i) (right ! i) (p @ [index_segment i]))
                 [0..<min_len] ds of
            Inl e \<Rightarrow> Inl e
          | Inr ds1 \<Rightarrow>
              if right_len > left_len then
                Inr (ds1 @ map (\<lambda>i. \<lparr>change_type = ADDED, path = p @ [index_segment i],
                                       old_value = py_None, new_value = right ! i\<rparr>)
                               [left_len..<right_len])
              else if left_len > right_len then
                Inr (ds1 @ map (\<lambda>i. \<lparr>change_type = REMOVED, path = p @ [index_segment i],
                                       old_value = left ! i, new_value = py_None\<rparr>)
                               [right_len..<left_len])
              else Inr ds1))"

definition compare_lists ::
  "compare_fn \<Rightarrow> set_order \<Rightarrow> node list \<Rightarrow> node list \<Rightarrow>
     string list \<Rightarrow> DiffItem list \<Rightarrow> error + DiffItem list" where
  "compare_lists cmp so left right p ds =
     (if should_sort_list left \<and> should_sort_list right
      then compare_sorted_lists cmp so left right p ds
      else compare_ordered_lists cmp left right p ds)"


subsection \<open>Which calls the methods make\<close>

lemma for_each_cong [fundef_cong]:
  "xs = ys \<Longrightarrow> s = t \<Longrightarrow> (\<And>x s'. x \<in> set ys \<Longrightarrow> f x s' = g x s') \<Longrightarrow>
   for_each f xs s = for_each g ys t"
proof -
  assume "xs = ys" "s = t" and fg: "\<And>x s'. x \<in> set ys \<Longrightarrow> f x s' = g x s'"
  have "for_each f ys t = for_each g ys t" using fg
    by (induction ys arbitrary: t) (auto split: sum.splits)
  then show ?thesis using \<open>xs = ys\<close> \<open>s = t\<close> by simp
qed

lemma set_iter_set [simp]: "set (set_iter so ks) = set ks"
  by (simp add: set_iter_def Let_def)

lemma set_iter_distinct [simp]: "distinct (set_iter so ks)"
  by (simp add: set_iter_def Let_def)

lemma getitem_mem: "k \<in> fst ` set kvs \<Longrightarrow> getitem kvs k \<in> snd ` set kvs"
proof -
  assume "k \<in> fst ` set kvs"
  then obtain v where "map_of kvs k = Some v"
    by (metis map_of_eq_None_iff not_Some_eq)
  then show ?thesis
    by (auto simp: getitem_def dest: map_of_SomeD intro: rev_image_eqI)
qed

lemma compare_dicts_cong [fundef_cong]:
  assumes "left = left'" "right = right'" "p = p'" "ds = ds'" "so = so'"
    and "\<And>x y q s. x \<in> snd ` set left' \<Longrightarrow> cmp x y q s = cmp' x y q s"
  shows "compare_dicts cmp so left right p ds = compare_dicts cmp' so' left' right' p' ds'"
  unfolding compare_dicts_def Let_def assms(1-5)
  by (rule for_each_cong) (auto intro!: assms(6) getitem_mem intro: rev_image_eqI)

lemma key_map_values:
  "key_map xs m = Inr m' \<Longrightarrow> snd ` set m' \<subseteq> set xs \<union> snd ` set m"
proof (induction xs arbitrary: m)
  case Nil
  then show ?case by simp
next
  case (Cons x xs)
  from Cons.prems obtain k where k: "get_sort_key x = Inr k"
    and r: "key_map xs (AList.update k x m) = Inr m'"
    by (auto split: sum.splits)
  have "snd ` set (AList.update k x m) \<subseteq> insert x (snd ` set m)"
    by (induction m) auto
  with Cons.IH [OF r] show ?case by auto
qed

lemma compare_sorted_lists_cong [fundef_cong]:
  assumes "left = left'" "right = right'" "p = p'" "ds = ds'" "so = so'"
    and "\<And>x y q s. x \<in> set left' \<Longrightarrow> cmp x y q s = cmp' x y q s"
  shows "compare_sorted_lists cmp so left right p ds
       = compare_sorted_lists cmp' so' left' right' p' ds'"
proof -
  have "for_each (\<lambda>key. cmp (getitem lm key) (getitem rm key) (p' @ [key_segment key])) ks s
      = for_each (\<lambda>key. cmp' (getitem lm key) (getitem rm key) (p' @ [key_segment key])) ks s"
    if "key_map left' [] = Inr lm" "set ks \<subseteq> set (map fst lm)" for lm rm ks s
  proof (rule for_each_cong)
    fix x s'
    assume "x \<in> set ks"
    then have "getitem lm x \<in> snd ` set lm" using that(2) by (auto intro!: getitem_mem)
    then have "getitem lm x \<in> set left'" using key_map_values [OF that(1)] by auto
    then show "cmp (getitem lm x) (getitem rm x) (p' @ [key_segment x]) s'
             = cmp' (getitem lm x) (getitem rm x) (p' @ [key_segment x]) s'"
      by (rule assms(6))
  qed simp_all
  then show ?thesis
    unfolding compare_sorted_lists_def Let_def assms(1-5)
    by (auto split: sum.splits)
qed

lemma compare_ordered_lists_cong [fundef_cong]:
  assumes "left = left'" "right = right'" "p = p'" "ds = ds'"
    and "\<And>x y q s. x \<in> set left' \<Longrightarrow> cmp x y q s = cmp' x y q s"
  shows "compare_ordered_lists cmp left right p ds
       = compare_ordered_lists cmp' left' right' p' ds'"
proof -
  have "for_each (\<lambda>i. cmp (left' ! i) (right' ! i) (p' @ [index_segment i]))
           [0..<min (length left') (length right')] ds'
      = for_each (\<lambda>i. cmp' (left' ! i) (right' ! i) (p' @ [index_segment i]))
           [0..<min (length left') (length right')] ds'"
    by (rule for_each_cong) (auto intro!: assms(5))
  then show ?thesis
    unfolding compare_ordered_lists_def Let_def assms(1-4) by simp
qed

lemma compare_lists_cong [fundef_cong]:
  assumes "left = left'" "right = right'" "p = p'" "ds = ds'" "so = so'"
    and "\<And>x y q s. x \<in> set left' \<Longrightarrow> cmp x y q s = cmp' x y q s"
  shows "compare_lists cmp so left right p ds = compare_lists cmp' so' left' right' p' ds'"
proof -
  have "compare_sorted_lists cmp so' left' right' p' ds'
      = compare_sorted_lists cmp' so' left' right' p' ds'"
    by (rule compare_sorted_lists_cong) (auto intro: assms(6))
  moreover have "compare_ordered_lists cmp left' right' p' ds'
      = compare_ordered_lists cmp' left' right' p' ds'"
    by (rule compare_ordered_lists_cong) (auto intro: assms(6))
  ultimately show ?thesis
    unfolding compare_lists_def assms(1-5) by simp
qed

text \<open>
  \<open>compare(left, right, path)\<close>, the definition that is in force (the second of the
  two in the class).  The lemmas above tell the function package which calls the
  methods make: on items of \<open>left\<close> only.
\<close>

function compare :: "set_order \<Rightarrow> node \<Rightarrow> node \<Rightarrow> string list \<Rightarrow> DiffItem list \<Rightarrow>
    error + DiffItem list" where
  "compare so left right p ds =
     (case normalize_data left of Inl e \<Rightarrow> Inl e
      | Inr left_norm \<Rightarrow>
     (case normalize_data right of Inl e \<Rightarrow> Inl e
      | Inr right_norm \<Rightarrow>
        if py_type left_norm \<noteq> py_type right_norm then
          Inr (ds @ [\<lparr>change_type = MODIFIED, path = p,
                       old_value = left_norm, new_value = right_norm\<rparr>])
        else
          (case (left_norm, right_norm) of
             (Map lm, Map rm) \<Rightarrow> compare_dicts (compare so) so lm rm p ds
           | (Seq ls, Seq rs) \<Rightarrow> compare_lists (compare so) so ls rs p ds
           | _ \<Rightarrow>
               if left_norm \<noteq> right_norm then
                 Inr (ds @ [\<lparr>change_type = MODIFIED, path = p,
                              old_value = left_norm, new_value = right_norm\<rparr>])
               else Inr ds)))"
  by pat_completeness auto


lemma normalize_size:
  "normalize_data x = Inr y \<Longrightarrow> size y = size x"
  "normalize_items xs = Inr ys \<Longrightarrow> size_list size ys = size_list size xs"
  "normalize_values kvs = Inr kvs' \<Longrightarrow>
     size_list (size_prod (\<lambda>k. 0) size) kvs' = size_list (size_prod (\<lambda>k. 0) size) kvs"
proof (induction x and xs and kvs arbitrary: y and ys and kvs'
    rule: normalize_data_normalize_items_normalize_values.induct)
  case (1 s)
  then show ?case by auto
next
  case (2 kvs)
  then show ?case by (auto split: sum.splits)
next
  case (3 xs)
  show ?case
  proof (cases "should_sort_list xs")
    case True
    with "3.prems" obtain sd zs where sd: "sorted_py xs = Inr sd"
      and zs: "normalize_items sd = Inr zs" and y: "y = Seq zs"
      by (auto split: sum.splits)
    have "size_list size zs = size_list size sd"
      using "3.IH"(1) [OF True sd zs] .
    also have "\<dots> = size_list size xs"
      by (rule size_list_mset [OF sorted_py_mset [OF sd]])
    finally show ?thesis by (simp add: y)
  next
    case False
    with "3.prems" "3.IH"(2) show ?thesis by (auto split: sum.splits)
  qed
next
  case 4
  then show ?case by auto
next
  case (5 x xs)
  then show ?case by (auto split: sum.splits)
next
  case 6
  then show ?case by auto
next
  case (7 kv kvs)
  then show ?case by (cases kv) (auto split: sum.splits)
qed

termination compare
proof (relation "measure (\<lambda>(so, left, right, p, ds). size left)", goal_cases)
  case 1
  show ?case by simp
next
  case (2 so left right p ds b ba x y x2 x2a xa)
  then have "size b = size left" and "xa \<in> set x2" and "b = Seq x2"
    by (auto dest: normalize_size(1))
  moreover have "size xa < Suc (size_list size x2)"
    using \<open>xa \<in> set x2\<close> by (simp add: less_Suc_eq_le size_list_estimation')
  ultimately show ?case by simp
next
  case (3 so left right p ds b ba x y x3 x3a xa)
  then have eq: "size b = size left" "b = Map x3" and "xa \<in> snd ` set x3"
    by (auto dest: normalize_size(1))
  then obtain k where "(k, xa) \<in> set x3" by auto
  then have "size_prod (\<lambda>k. 0) size (k, xa) \<le> size_list (size_prod (\<lambda>k. 0) size) x3"
    by (rule size_list_estimation') simp
  then have "size xa < Suc (size_list (size_prod (\<lambda>k. 0) size) x3)" by simp
  with eq show ?case by simp
qed

section \<open>The grouper and the tree report\<close>

text \<open>
  \<open>format_as_tree\<close> groups the records by the first segment of their path, builds a
  nested dict per group and walks it.  The walk hands every record to
  \<open>_add_diff_line\<close> or \<open>_add_env_diff_lines\<close>, which format one record into text
  (with \<open>yaml.dump\<close>); the model stops there: its output is the list of header lines
  and of the calls of the two formatters, in order.
\<close>

datatype tree = Leaf "DiffItem list" | Branch "(string \<times> tree) list"

datatype render_call =
    HeaderLine nat string
  | AddDiffLine DiffItem nat
  | AddEnvDiffLines DiffItem nat

definition find_group_key :: "string list \<Rightarrow> string" where
  "find_group_key p = (if length p \<ge> 1 then p ! 0 else [])"

fun group_differences_by_path ::
  "DiffItem list \<Rightarrow> (string \<times> DiffItem list) list \<Rightarrow> (string \<times> DiffItem list) list" where
  "group_differences_by_path [] grouped = grouped"
| "group_differences_by_path (diff # diffs) grouped =
     (let group_key = find_group_key (path diff);
          grouped1 = (if group_key \<notin> set (map fst grouped)
                      then grouped @ [(group_key, [])] else grouped);
          grouped2 = AList.update group_key
                       (the (map_of grouped1 group_key) @ [diff]) grouped1
      in group_differences_by_path diffs grouped2)"

definition get_remaining_path :: "string list \<Rightarrow> nat \<Rightarrow> string list" where
  "get_remaining_path full_path prefix_length =
     (if prefix_length < length full_path then drop prefix_length full_path else [])"

text \<open>
  \<open>_insert_diff_into_tree\<close> walks down \<open>remaining_path[:-1]\<close>, making an empty dict
  where a part is new, and appends the record to the list under the last part (under
  \<open>""\<close> when the path is empty).  Where the walk meets a list in place of a dict,
  \<open>current[part] = {}\<close> or \<open>current[last_part] = []\<close> raises \<open>TypeError\<close>; where the
  last part holds a dict, \<open>.append\<close> raises \<open>AttributeError\<close>.
\<close>

definition insert_leaf ::
  "(string \<times> tree) list \<Rightarrow> DiffItem \<Rightarrow> string \<Rightarrow> error + (string \<times> tree) list" where
  "insert_leaf current diff last_part =
     (case map_of current last_part of
        None \<Rightarrow> Inr (current @ [(last_part, Leaf [diff])])
      | Some (Leaf diffs) \<Rightarrow> Inr (AList.update last_part (Leaf (diffs @ [diff])) current)
      | Some (Branch sub) \<Rightarrow> Inl AttributeError)"

fun insert_diff_into_tree ::
  "(string \<times> tree) list \<Rightarrow> DiffItem \<Rightarrow> string list \<Rightarrow> error + (string \<times> tree) list" where
  "insert_diff_into_tree current diff [] = insert_leaf current diff []"
| "insert_diff_into_tree current diff [last_part] = insert_leaf current diff last_part"
| "insert_diff_into_tree current diff (part # rest) =
     (case map_of current part of
        None \<Rightarrow>
          (case insert_diff_into_tree [] diff rest of Inl e \<Rightarrow> Inl e
           | Inr sub \<Rightarrow> Inr (current @ [(part, Branch sub)]))
      | Some (Branch sub) \<Rightarrow>
          (case insert_diff_into_tree sub diff rest of Inl e \<Rightarrow> Inl e
           | Inr sub' \<Rightarrow> Inr (AList.update part (Branch sub') current))
      | Some (Leaf diffs) \<Rightarrow> Inl TypeError)"

text \<open>\<open>_combine_complementary_env_diffs\<close>.\<close>

definition last_part_of :: "DiffItem \<Rightarrow> string" where
  "last_part_of diff = (if path diff = [] then [] else last (path diff))"

fun collect_value_diffs ::
  "DiffItem list \<Rightarrow> (string list \<times> DiffItem) list \<times> (string list \<times> DiffItem) list \<Rightarrow>
     (string list \<times> DiffItem) list \<times> (string list \<times> DiffItem) list" where
  "collect_value_diffs [] (value_diffs, value_from_diffs) = (value_diffs, value_from_diffs)"
| "collect_value_diffs (diff # diffs) (value_diffs, value_from_diffs) =
     (if last_part_of diff = ''value'' then
        collect_value_diffs diffs
          (AList.update (butlast (path diff)) diff value_diffs, value_from_diffs)
      else if last_part_of diff = ''valueFrom'' then
        collect_value_diffs diffs
          (value_diffs, AList.update (butlast (path diff)) diff value_from_diffs)
      else collect_value_diffs diffs (value_diffs, value_from_diffs))"

text \<open>The two loops; their state is \<open>combined_diffs\<close> and \<open>processed_paths\<close>.  A
  \<open>DiffItem\<close> is always true as a condition, so \<open>if value_from_diff and ...\<close> asks
  whether \<open>.get\<close> found one.\<close>

fun value_loop ::
  "(string list \<times> DiffItem) list \<Rightarrow> (string list \<times> DiffItem) list \<Rightarrow>
     DiffItem list \<times> string list list \<Rightarrow> DiffItem list \<times> string list list" where
  "value_loop [] value_from_diffs (combined_diffs, processed_paths) =
     (combined_diffs, processed_paths)"
| "value_loop ((parent_path, value_diff) # rest) value_from_diffs (combined_diffs, processed_paths) =
     (if parent_path \<in> set processed_paths then
        value_loop rest value_from_diffs (combined_diffs, processed_paths)
      else
        (case map_of value_from_diffs parent_path of
           Some value_from_diff \<Rightarrow>
             if change_type value_diff = ADDED \<and> change_type value_from_diff = REMOVED then
               value_loop rest value_from_diffs
                 (combined_diffs @ [\<lparr>change_type = MODIFIED, path = butlast (path value_diff),
                                      old_value = old_value value_from_diff,
                                      new_value = new_value value_diff\<rparr>],
                  processed_paths @ [parent_path])
             else value_loop rest value_from_diffs (combined_diffs @ [value_diff], processed_paths)
         | None \<Rightarrow>
             value_loop rest value_from_diffs (combined_diffs @ [value_diff], processed_paths)))"

fun value_from_loop ::
  "(string list \<times> DiffItem) list \<Rightarrow> (string list \<times> DiffItem) list \<Rightarrow>
     DiffItem list \<times> string list list \<Rightarrow> DiffItem list \<times> string list list" where
  "value_from_loop [] value_diffs (combined_diffs, processed_paths) =
     (combined_diffs, processed_paths)"
| "value_from_loop ((parent_path, value_from_diff) # rest) value_diffs
       (combined_diffs, processed_paths) =
     (if parent_path \<in> set processed_paths then
        value_from_loop rest value_diffs (combined_diffs, processed_paths)
      else
        (case map_of value_diffs parent_path of
           Some value_diff \<Rightarrow>
             if change_type value_from_diff = ADDED \<and> change_type value_diff = REMOVED then
               value_from_loop rest value_diffs
                 (combined_diffs @ [\<lparr>change_type = MODIFIED,
                                      path = butlast (path value_from_diff),
                                      old_value = old_value value_diff,
                                      new_value = new_value value_from_diff\<rparr>],
                  processed_paths @ [parent_path])
             else
               value_from_loop rest value_diffs
                 (combined_diffs @ [value_from_diff], processed_paths)
         | None \<Rightarrow>
             value_from_loop rest value_diffs
               (combined_diffs @ [value_from_diff], processed_paths)))"

definition combine_complementary_env_diffs :: "DiffItem list \<Rightarrow> DiffItem list" where
  "combine_complementary_env_diffs env_diffs =
     (if env_diffs = [] then env_diffs
      else
        (let (value_diffs, value_from_diffs) = collect_value_diffs env_diffs ([], []);
             st1 = value_loop value_diffs value_from_diffs ([], []);
             st2 = value_from_loop value_from_diffs value_diffs st1
         in fst st2))"

text \<open>\<open>collect_env_diffs\<close>, the local function of \<open>_tree_to_diff_lines\<close>: the records
  of all leaves below a dict, in the order of the dicts' keys.\<close>

fun collect_env_diffs :: "(string \<times> tree) list \<Rightarrow> DiffItem list" where
  "collect_env_diffs [] = []"
| "collect_env_diffs ((k, Branch d) # rest) = collect_env_diffs d @ collect_env_diffs rest"
| "collect_env_diffs ((k, Leaf v) # rest) = v @ collect_env_diffs rest"

definition bracketed :: "string \<Rightarrow> bool" where
  "bracketed key = (key \<noteq> [] \<and> hd key = CHR ''['' \<and> last key = CHR '']'')"

function tree_to_diff_lines :: "(string \<times> tree) list \<Rightarrow> nat \<Rightarrow> string \<Rightarrow> render_call list"
  and tree_entries :: "(string \<times> tree) list \<Rightarrow> nat \<Rightarrow> string \<Rightarrow> render_call list" where
  "tree_to_diff_lines tr indent parent_key = tree_entries (sort_key fst tr) indent parent_key"
| "tree_entries [] indent parent_key = []"
| "tree_entries ((key, Branch v) # rest) indent parent_key =
     (if parent_key = ''env'' \<and> bracketed key then
        map (\<lambda>diff. AddEnvDiffLines diff indent)
            (combine_complementary_env_diffs (collect_env_diffs v))
      else HeaderLine indent key # tree_to_diff_lines v (indent + 1) key)
     @ tree_entries rest indent parent_key"
| "tree_entries ((key, Leaf v) # rest) indent parent_key =
     map (\<lambda>diff. AddDiffLine diff indent) v @ tree_entries rest indent parent_key"
  by pat_completeness auto
termination
proof (relation "measure (case_sum
          (\<lambda>(tr, i, k). Suc (size_list (size_prod (\<lambda>k. 0) size) tr))
          (\<lambda>(tr, i, k). size_list (size_prod (\<lambda>k. 0) size) tr))", goal_cases)
  case 1
  show ?case by simp
next
  case (2 tr indent parent_key)
  have "size_list (size_prod (\<lambda>k. 0) size) (sort_key fst tr)
      = size_list (size_prod (\<lambda>k. 0) size) tr"
    by (rule size_list_mset) simp
  then show ?case by simp
next
  case (3 key v rest indent parent_key)
  show ?case by simp
next
  case (4 key v rest indent parent_key)
  show ?case by simp
next
  case (5 key v rest indent parent_key)
  show ?case by simp
qed

definition add_grouped_diffs :: "DiffItem list \<Rightarrow> nat \<Rightarrow> error + render_call list" where
  "add_grouped_diffs diffs base_indent =
     (case for_each (\<lambda>diff tr. insert_diff_into_tree tr diff
                                 (get_remaining_path (path diff) base_indent)) diffs [] of
        Inl e \<Rightarrow> Inl e
      | Inr tr \<Rightarrow> Inr (tree_to_diff_lines tr base_indent []))"

fun split_str :: "char \<Rightarrow> string \<Rightarrow> string list" where
  "split_str c [] = [[]]"
| "split_str c (x # xs) =
     (if x = c then [] # split_str c xs
      else (case split_str c xs of [] \<Rightarrow> [[x]] | w # ws \<Rightarrow> (x # w) # ws))"

definition grouped_diffs_to_lines ::
  "(string \<times> DiffItem list) list \<Rightarrow> error + render_call list" where
  "grouped_diffs_to_lines grouped =
     for_each (\<lambda>group_path lines.
         (let diffs = the (map_of grouped group_path) in
          if group_path = [] then Inr (lines @ map (\<lambda>diff. AddDiffLine diff 0) diffs)
          else
            (let path_parts = split_str CHR ''.'' group_path;
                 lines1 = lines @ map (\<lambda>(i, part). HeaderLine i part)
                                      (zip [0..<length path_parts] path_parts);
                 base_indent = length path_parts
             in (case add_grouped_diffs diffs base_indent of Inl e \<Rightarrow> Inl e
                 | Inr ls \<Rightarrow> Inr (lines1 @ ls)))))
       (sort (map fst grouped)) []"

definition format_as_tree :: "DiffItem list \<Rightarrow> error + render_call list" where
  "format_as_tree differences =
     (if differences = [] then Inr []
      else grouped_diffs_to_lines (group_differences_by_path differences []))"

text \<open>
  \<open>main\<close> makes a fresh \<open>YAMLDiff\<close>, calls \<open>compare(left_data, right_data, [])\<close> on it
  and, for the tree report, \<open>format_as_tree\<close>.
\<close>

definition main_tree :: "set_order \<Rightarrow> node \<Rightarrow> node \<Rightarrow> error + render_call list" where
  "main_tree so left_data right_data =
     (case compare so left_data right_data [] [] of Inl e \<Rightarrow> Inl e
      | Inr differences \<Rightarrow> format_as_tree differences)"

text \<open>What a call leaves in \<open>self.differences\<close> when it started with \<open>ds\<close> and
  appends \<open>rs\<close>, or raises.\<close>

definition emit :: "error + DiffItem list \<Rightarrow> DiffItem list \<Rightarrow> error + DiffItem list" where
  "emit r ds = (case r of Inl e \<Rightarrow> Inl e | Inr rs \<Rightarrow> Inr (ds @ rs))"

section \<open>Predicates of the statements\<close>

text \<open>
  \<open>sortable\<close>: no list of the document that \<open>_should_sort_list\<close> accepts holds an
  empty dict.  These are the documents on which \<open>normalize_data\<close> returns
  (\<open>normalize_data_ok\<close> below).  \<open>sort_key_of\<close> is the sort key where
  \<open>_get_sort_key\<close> returns one, and \<open>shape\<close> is what \<open>_should_sort_list\<close> reads of
  an item: whether it is a dict, and its keys.
\<close>

fun sortable :: "node \<Rightarrow> bool" where
  "sortable (Scalar s) = True"
| "sortable (Seq xs) = (list_all sortable xs \<and> (should_sort_list xs \<longrightarrow> Map [] \<notin> set xs))"
| "sortable (Map kvs) = list_all sortable (map snd kvs)"

definition sort_key_of :: "node \<Rightarrow> string" where
  "sort_key_of x = (case get_sort_key x of Inl e \<Rightarrow> [] | Inr k \<Rightarrow> k)"

fun shape :: "node \<Rightarrow> string list option" where
  "shape (Map kvs) = Some (map fst kvs)"
| "shape x = None"


text \<open>The number that a string of decimal digits writes, to read \<open>str_nat\<close> back.\<close>

definition digit_val :: "char \<Rightarrow> nat" where
  "digit_val c = of_char c - 48"

definition digits_val :: "string \<Rightarrow> nat" where
  "digits_val s = foldl (\<lambda>a c. 10 * a + digit_val c) 0 s"

text \<open>
  \<open>scalar_keys\<close>: wherever a list of the document is sorted, the value that
  \<open>_get_sort_key\<close> turns into the sort key of an item (the value under \<open>name\<close>,
  else under the first key, else the item itself) is a scalar.
\<close>

fun is_scalar :: "node \<Rightarrow> bool" where
  "is_scalar (Scalar s) = True"
| "is_scalar x = False"

fun key_is_scalar :: "node \<Rightarrow> bool" where
  "key_is_scalar (Map kvs) =
     (if has_key kvs ''name'' then is_scalar (getitem kvs ''name'')
      else (case kvs of [] \<Rightarrow> True | kv # rest \<Rightarrow> is_scalar (getitem kvs (fst kv))))"
| "key_is_scalar (Scalar s) = True"
| "key_is_scalar (Seq xs) = False"

fun scalar_keys :: "node \<Rightarrow> bool" where
  "scalar_keys (Scalar s) = True"
| "scalar_keys (Seq xs) =
     (list_all scalar_keys xs \<and> (should_sort_list xs \<longrightarrow> list_all key_is_scalar xs))"
| "scalar_keys (Map kvs) = list_all scalar_keys (map snd kvs)"

section \<open>Words of the specification\<close>

text \<open>
  The specification's test for key-based normalization (4.1), as it is worded: not
  empty, the first element is a mapping, and either that element has a field \<open>name\<close>
  or every element is a mapping and all have the same key set.
\<close>

fun is_mapping :: "node \<Rightarrow> bool" where
  "is_mapping (Map kvs) = True"
| "is_mapping x = False"

fun key_set :: "node \<Rightarrow> string set" where
  "key_set (Map kvs) = set (map fst kvs)"
| "key_set x = {}"

definition spec_qualifies :: "node list \<Rightarrow> bool" where
  "spec_qualifies xs =
     (xs \<noteq> [] \<and> is_mapping (hd xs) \<and>
      (''name'' \<in> key_set (hd xs) \<or>
       (list_all is_mapping xs \<and> list_all (\<lambda>x. key_set x = key_set (hd xs)) xs)))"

text \<open>
  The specification's order of a change set (3): the locations of a document as a
  traversal meets them, top-down, a key before its value, left to right.  A list of
  records is in traversal order of a document when those of its paths that are
  locations of the document come in that order.
\<close>

fun traversal_paths :: "string list \<Rightarrow> node \<Rightarrow> string list list"
  and traversal_items :: "string list \<Rightarrow> nat \<Rightarrow> node list \<Rightarrow> string list list"
  and traversal_fields :: "string list \<Rightarrow> (string \<times> node) list \<Rightarrow> string list list" where
  "traversal_paths p (Scalar s) = [p]"
| "traversal_paths p (Seq xs) = p # traversal_items p 0 xs"
| "traversal_paths p (Map kvs) = p # traversal_fields p kvs"
| "traversal_items p i [] = []"
| "traversal_items p i (x # xs) =
     traversal_paths (p @ [index_segment i]) x @ traversal_items p (Suc i) xs"
| "traversal_fields p [] = []"
| "traversal_fields p (kv # kvs) =
     traversal_paths (p @ [field_segment (fst kv)]) (snd kv) @ traversal_fields p kvs"


section \<open>Basic facts\<close>

lemma set_iter_Nil [simp]: "set_iter so [] = []"
  by (simp add: set_iter_def Let_def)

lemma set_iter_single [simp]: "set_iter so [k] = [k]"
proof -
  have s: "set (set_iter so [k]) = {k}" and d: "distinct (set_iter so [k])" by simp_all
  from s obtain x xs where r: "set_iter so [k] = x # xs"
    by (cases "set_iter so [k]") auto
  from s d r have "x = k" "set xs \<subseteq> {k}" "k \<notin> set xs" by auto
  then have "xs = []" by (cases xs) auto
  with r \<open>x = k\<close> show ?thesis by simp
qed

lemma set_iter_two:
  assumes "a \<noteq> b"
  shows "set_iter so [a, b] = [a, b] \<or> set_iter so [a, b] = [b, a]"
proof -
  let ?r = "set_iter so [a, b]"
  have s: "set ?r = {a, b}" and d: "distinct ?r" by simp_all
  from d have "card (set ?r) = length ?r" by (rule distinct_card)
  then have "length ?r = 2" using assms by simp
  then obtain x y where r: "?r = [x, y]"
    by (auto simp: length_Suc_conv numeral_2_eq_2)
  from s d assms show ?thesis unfolding r by (auto simp: doubleton_eq_iff)
qed

lemma same_keys_iff: "same_keys ks x \<longleftrightarrow> is_mapping x \<and> key_set x = ks"
  by (cases x) auto

subsection \<open>The records of a call do not depend on the records before it\<close>

lemma emit_simps [simp]:
  "emit (Inl e) ds = Inl e"
  "emit (Inr rs) ds = Inr (ds @ rs)"
  by (simp_all add: emit_def)

lemma emit_emit: "emit (emit r a) b = emit r (b @ a)"
  by (cases r) simp_all

lemma emit_Nil [simp]: "emit r [] = r"
  by (cases r) simp_all

lemma for_each_acc:
  "(\<And>x s. x \<in> set xs \<Longrightarrow> body x s = emit (body x []) s) \<Longrightarrow>
   for_each body xs s = emit (for_each body xs []) s"
proof (induction xs arbitrary: s)
  case Nil
  show ?case by simp
next
  case (Cons x xs)
  have b: "body x s = emit (body x []) s" by (rule Cons.prems) simp
  show ?case
  proof (cases "body x []")
    case (Inl e)
    with b show ?thesis by simp
  next
    case (Inr r1)
    have ih: "for_each body xs t = emit (for_each body xs []) t" for t
      by (rule Cons.IH) (rule Cons.prems, simp)
    have "for_each body (x # xs) s = for_each body xs (s @ r1)"
      using b Inr by simp
    also have "\<dots> = emit (for_each body xs []) (s @ r1)" by (rule ih)
    also have "\<dots> = emit (emit (for_each body xs []) r1) s" by (simp add: emit_emit)
    also have "emit (for_each body xs []) r1 = for_each body xs r1" by (rule ih [symmetric])
    also have "for_each body xs r1 = for_each body (x # xs) []" using Inr by simp
    finally show ?thesis .
  qed
qed

lemma for_each_acc':
  "(\<And>x s. x \<in> set xs \<Longrightarrow> body x s = emit (body x []) s) \<Longrightarrow>
   for_each body xs (a @ b) = emit (for_each body xs b) a"
proof -
  assume h: "\<And>x s. x \<in> set xs \<Longrightarrow> body x s = emit (body x []) s"
  have "for_each body xs (a @ b) = emit (for_each body xs []) (a @ b)"
    by (rule for_each_acc) (rule h)
  also have "\<dots> = emit (emit (for_each body xs []) b) a" by (simp add: emit_emit)
  also have "emit (for_each body xs []) b = for_each body xs b"
    by (rule for_each_acc [symmetric]) (rule h)
  finally show ?thesis .
qed

lemma compare_dicts_acc:
  assumes "\<And>x y q s. x \<in> snd ` set left \<Longrightarrow> cmp x y q s = emit (cmp x y q []) s"
  shows "compare_dicts cmp so left right p ds = emit (compare_dicts cmp so left right p []) ds"
  unfolding compare_dicts_def Let_def append_Nil append_assoc
  by (rule for_each_acc') (auto intro!: assms getitem_mem intro: rev_image_eqI)

lemma compare_sorted_lists_acc:
  assumes "\<And>x y q s. x \<in> set left \<Longrightarrow> cmp x y q s = emit (cmp x y q []) s"
  shows "compare_sorted_lists cmp so left right p ds
       = emit (compare_sorted_lists cmp so left right p []) ds"
proof (cases "key_map left []")
  case (Inl e)
  then show ?thesis by (simp add: compare_sorted_lists_def)
next
  case (Inr lm)
  note lm = this
  show ?thesis
  proof (cases "key_map right []")
    case (Inl e)
    then show ?thesis by (simp add: compare_sorted_lists_def lm)
  next
    case (Inr rm)
    have mem: "getitem lm k \<in> set left" if "k \<in> fst ` set lm" for k
      using getitem_mem [OF that] key_map_values [OF lm] by auto
    show ?thesis
      unfolding compare_sorted_lists_def lm Inr sum.case Let_def append_Nil append_assoc
      by (rule for_each_acc') (auto intro!: assms mem intro: rev_image_eqI)
  qed
qed

lemma compare_ordered_lists_acc:
  assumes "\<And>x y q s. x \<in> set left \<Longrightarrow> cmp x y q s = emit (cmp x y q []) s"
  shows "compare_ordered_lists cmp left right p ds
       = emit (compare_ordered_lists cmp left right p []) ds"
proof -
  let ?loop = "for_each (\<lambda>i. cmp (left ! i) (right ! i) (p @ [index_segment i]))
                 [0..<min (length left) (length right)]"
  have l: "?loop ds = emit (?loop []) ds"
    by (rule for_each_acc) (auto intro!: assms)
  show ?thesis
    unfolding compare_ordered_lists_def Let_def l
    by (cases "?loop []") simp_all
qed

lemma compare_lists_acc:
  assumes "\<And>x y q s. x \<in> set left \<Longrightarrow> cmp x y q s = emit (cmp x y q []) s"
  shows "compare_lists cmp so left right p ds = emit (compare_lists cmp so left right p []) ds"
  unfolding compare_lists_def
  using compare_sorted_lists_acc [of left cmp so right p ds, OF assms]
    compare_ordered_lists_acc [of left cmp right p ds, OF assms]
  by simp

lemma py_type_TList: "py_type x = TList \<longleftrightarrow> (\<exists>xs. x = Seq xs)"
  by (cases x rule: py_type.cases) simp_all

lemma py_type_TDict: "py_type x = TDict \<longleftrightarrow> (\<exists>kvs. x = Map kvs)"
  by (cases x rule: py_type.cases) simp_all

lemma compare_acc: "compare so left right p ds = emit (compare so left right p []) ds"
proof (induction so left right p ds rule: compare.induct)
  case (1 so left right p ds)
  show ?case
  proof (cases "normalize_data left")
    case (Inl e)
    then show ?thesis by simp
  next
    case (Inr ln)
    note ln = this
    show ?thesis
    proof (cases "normalize_data right")
      case (Inl e)
      then show ?thesis by (simp add: ln)
    next
      case (Inr rn)
      note rn = this
      show ?thesis
      proof (cases "py_type ln \<noteq> py_type rn")
        case True
        then show ?thesis by (simp add: ln rn)
      next
        case False
        note ty = this
        show ?thesis
        proof (cases ln)
          case (Scalar s)
          then show ?thesis using ty by (simp add: ln rn)
        next
          case (Seq ls)
          then obtain rs where rs: "rn = Seq rs" using ty py_type_TList [of rn] by auto
          have "compare_lists (compare so) so ls rs p ds
              = emit (compare_lists (compare so) so ls rs p []) ds"
            by (rule compare_lists_acc) (rule "1.IH"(1) [OF ln rn ty _ Seq rs], simp)
          then show ?thesis by (simp add: ln rn Seq rs)
        next
          case (Map lm)
          then obtain rm where rm: "rn = Map rm" using ty py_type_TDict [of rn] by auto
          have "compare_dicts (compare so) so lm rm p ds
              = emit (compare_dicts (compare so) so lm rm p []) ds"
            by (rule compare_dicts_acc) (rule "1.IH"(2) [OF ln rn ty _ Map rm], simp)
          then show ?thesis by (simp add: ln rn Map rm)
        qed
      qed
    qed
  qed
qed

subsection \<open>When normalize_data returns, and what it keeps\<close>

lemma get_sort_key_Inl: "get_sort_key x = Inl e \<longleftrightarrow> x = Map [] \<and> e = StopIteration"
  by (cases x) (auto simp: has_key_def split: list.splits)

lemma get_sort_key_Inr: "x \<noteq> Map [] \<Longrightarrow> get_sort_key x = Inr (sort_key_of x)"
  by (cases "get_sort_key x") (auto simp: sort_key_of_def get_sort_key_Inl)

lemma sort_keys_eq:
  "sort_keys xs = (if Map [] \<in> set xs then Inl StopIteration else Inr (map sort_key_of xs))"
proof (induction xs)
  case Nil
  show ?case by simp
next
  case (Cons x xs)
  show ?case
  proof (cases "x = Map []")
    case True
    then show ?thesis by (simp add: has_key_def)
  next
    case False
    then show ?thesis using Cons by (auto simp: get_sort_key_Inr)
  qed
qed

lemma insort_key_map:
  "insort_key f (h x) (map h ys) = map h (insort_key (\<lambda>a. f (h a)) x ys)"
  by (induction ys) simp_all

lemma sort_key_map: "sort_key f (map h xs) = map h (sort_key (\<lambda>a. f (h a)) xs)"
  by (induction xs) (simp_all add: insort_key_map)

lemma sorted_py_eq:
  "sorted_py xs = (if Map [] \<in> set xs then Inl StopIteration else Inr (sort_key sort_key_of xs))"
proof (cases "Map [] \<in> set xs")
  case True
  then show ?thesis by (simp add: sorted_py_def sort_keys_eq)
next
  case False
  have "zip (map sort_key_of xs) xs = map (\<lambda>x. (sort_key_of x, x)) xs"
    by (induction xs) simp_all
  then have "map snd (sort_key fst (zip (map sort_key_of xs) xs)) = sort_key sort_key_of xs"
    by (simp add: sort_key_map comp_def)
  with False show ?thesis by (simp add: sorted_py_def sort_keys_eq)
qed

lemma normalize_items_iff:
  "normalize_items xs = Inr ys \<longleftrightarrow> list_all2 (\<lambda>x y. normalize_data x = Inr y) xs ys"
proof
  show "normalize_items xs = Inr ys \<Longrightarrow> list_all2 (\<lambda>x y. normalize_data x = Inr y) xs ys"
    by (induction xs arbitrary: ys) (auto split: sum.splits)
  show "list_all2 (\<lambda>x y. normalize_data x = Inr y) xs ys \<Longrightarrow> normalize_items xs = Inr ys"
    by (induction xs ys rule: list_all2_induct) simp_all
qed

lemma normalize_values_iff:
  "normalize_values kvs = Inr kvs' \<longleftrightarrow>
     list_all2 (\<lambda>kv kv'. fst kv' = fst kv \<and> normalize_data (snd kv) = Inr (snd kv')) kvs kvs'"
proof
  show "normalize_values kvs = Inr kvs' \<Longrightarrow>
     list_all2 (\<lambda>kv kv'. fst kv' = fst kv \<and> normalize_data (snd kv) = Inr (snd kv')) kvs kvs'"
    by (induction kvs arbitrary: kvs') (auto split: sum.splits)
  show "list_all2 (\<lambda>kv kv'. fst kv' = fst kv \<and> normalize_data (snd kv) = Inr (snd kv')) kvs kvs'
     \<Longrightarrow> normalize_values kvs = Inr kvs'"
    by (induction kvs kvs' rule: list_all2_induct) (auto simp: prod_eq_iff)
qed

lemma normalize_values_keys: "normalize_values kvs = Inr kvs' \<Longrightarrow> map fst kvs' = map fst kvs"
  unfolding normalize_values_iff by (induction kvs kvs' rule: list_all2_induct) auto

lemma normalize_shape: "normalize_data x = Inr y \<Longrightarrow> shape y = shape x"
  by (cases x) (auto simp: normalize_values_keys split: sum.splits if_splits)

lemma shape_Map_Nil: "shape y = Some [] \<longleftrightarrow> y = Map []"
  by (cases y) auto

lemma normalize_Map_Nil: "normalize_data x = Inr (Map []) \<Longrightarrow> x = Map []"
  using normalize_shape [of x "Map []"] shape_Map_Nil [of x] by simp

lemma should_sort_shape:
  "map shape xs = map shape ys \<Longrightarrow> should_sort_list xs = should_sort_list ys"
proof (cases xs)
  case Nil
  assume "map shape xs = map shape ys"
  with Nil show ?thesis by simp
next
  case (Cons x xs')
  assume a: "map shape xs = map shape ys"
  with Cons obtain y ys' where ys: "ys = y # ys'" and hd: "shape x = shape y"
    and tl: "map shape xs' = map shape ys'"
    by (cases ys) auto
  have same: "same_keys ks a = same_keys ks b" if "shape a = shape b" for ks a b
    using that by (cases a; cases b) auto
  have rest: "list_all (same_keys ks) xs' = list_all (same_keys ks) ys'" for ks
    using tl
  proof (induction xs' arbitrary: ys')
    case Nil
    then show ?case by simp
  next
    case (Cons a as)
    then obtain b bs where "ys' = b # bs" "shape a = shape b" "map shape as = map shape bs"
      by (cases ys') auto
    then show ?case using Cons.IH [of bs] same [of a b ks] by simp
  qed
  show ?thesis
  proof (cases x)
    case (Map kvs)
    with hd obtain kvs' where y: "y = Map kvs'" and k: "map fst kvs' = map fst kvs"
      by (cases y) auto
    have "set (map fst kvs') = set (map fst kvs)" using k by simp
    moreover have "kvs' = [] \<longleftrightarrow> kvs = []" using k by (metis map_is_Nil_conv)
    ultimately show ?thesis
      unfolding Cons ys Map y using rest [of "set (map fst kvs)"]
      by (simp add: has_key_def)
  next
    case (Scalar s)
    with hd show ?thesis unfolding Cons ys by (cases y) auto
  next
    case (Seq zs)
    with hd show ?thesis unfolding Cons ys by (cases y) auto
  qed
qed

lemma normalize_items_shape:
  "normalize_items xs = Inr ys \<Longrightarrow> map shape ys = map shape xs"
  unfolding normalize_items_iff
  by (induction xs ys rule: list_all2_induct) (auto simp: normalize_shape)

lemma normalize_items_ok:
  "(\<exists>ys. normalize_items xs = Inr ys) \<longleftrightarrow> (\<forall>x\<in>set xs. \<exists>y. normalize_data x = Inr y)"
  by (induction xs) (auto split: sum.splits)


lemma normalize_data_Seq_ok:
  "(\<exists>y. normalize_data (Seq xs) = Inr y) \<longleftrightarrow>
     (\<forall>x\<in>set xs. \<exists>y. normalize_data x = Inr y) \<and> (should_sort_list xs \<longrightarrow> Map [] \<notin> set xs)"
proof (cases "should_sort_list xs")
  case False
  have "(\<exists>y. normalize_data (Seq xs) = Inr y) \<longleftrightarrow> (\<exists>ys. normalize_items xs = Inr ys)"
    using False by (auto split: sum.splits)
  then show ?thesis using False by (simp add: normalize_items_ok)
next
  case True
  show ?thesis
  proof (cases "Map [] \<in> set xs")
    case True
    then show ?thesis using \<open>should_sort_list xs\<close> by (simp add: sorted_py_eq)
  next
    case False
    have "(\<exists>y. normalize_data (Seq xs) = Inr y)
        \<longleftrightarrow> (\<exists>ys. normalize_items (sort_key sort_key_of xs) = Inr ys)"
      using False True by (auto simp: sorted_py_eq split: sum.splits)
    then show ?thesis using False True by (simp add: normalize_items_ok)
  qed
qed


subsection \<open>A document against itself\<close>

lemma list_all2_memR: "list_all2 P xs ys \<Longrightarrow> y \<in> set ys \<Longrightarrow> \<exists>x\<in>set xs. P x y"
  by (induction xs ys rule: list_all2_induct) auto

lemma normalize_sortable: "normalize_data x = Inr y \<Longrightarrow> sortable y"
proof (induction x arbitrary: y)
  case (Scalar s)
  then show ?case by auto
next
  case (Map kvs)
  from Map.prems obtain kvs' where y: "y = Map kvs'" and n: "normalize_values kvs = Inr kvs'"
    by (auto split: sum.splits)
  have "sortable v'" if "v' \<in> snd ` set kvs'" for v'
  proof -
    from that obtain kv' where kv': "kv' \<in> set kvs'" "v' = snd kv'" by auto
    from n have "list_all2 (\<lambda>kv kv'. fst kv' = fst kv \<and> normalize_data (snd kv) = Inr (snd kv'))
        kvs kvs'" by (simp add: normalize_values_iff)
    from list_all2_memR [OF this kv'(1)]
    obtain kv where "kv \<in> set kvs" "normalize_data (snd kv) = Inr (snd kv')"
      by blast
    then show ?thesis using Map.IH [of kv "snd kv" v'] kv'(2)
      by (cases kv) (auto simp: snds.simps)
  qed
  then show ?case by (simp add: y list_all_iff)
next
  case (Seq xs)
  define xs' where "xs' = (if should_sort_list xs then sort_key sort_key_of xs else xs)"
  have set': "set xs' = set xs" by (simp add: xs'_def)
  from Seq.prems have ok: "should_sort_list xs \<longrightarrow> Map [] \<notin> set xs"
    using normalize_data_Seq_ok [of xs] by blast
  from Seq.prems ok obtain ys where y: "y = Seq ys" and n: "normalize_items xs' = Inr ys"
    by (auto simp: xs'_def sorted_py_eq split: sum.splits if_splits)
  from n have l2: "list_all2 (\<lambda>x y. normalize_data x = Inr y) xs' ys"
    by (simp add: normalize_items_iff)
  have pre: "\<exists>x\<in>set xs. normalize_data x = Inr z" if "z \<in> set ys" for z
    using list_all2_memR [OF l2 that] set' by simp
  have elems: "sortable z" if "z \<in> set ys" for z
    using pre [OF that] Seq.IH by blast
  have "Map [] \<notin> set ys" if ss: "should_sort_list ys"
  proof
    assume "Map [] \<in> set ys"
    with pre obtain x where "x \<in> set xs" "normalize_data x = Inr (Map [])" by blast
    then have "Map [] \<in> set xs" using normalize_Map_Nil by blast
    with ok have "\<not> should_sort_list xs" by blast
    then have "xs' = xs" by (simp add: xs'_def)
    with n have "map shape ys = map shape xs" by (simp add: normalize_items_shape)
    then have "should_sort_list ys = should_sort_list xs" by (rule should_sort_shape)
    with ss \<open>\<not> should_sort_list xs\<close> show False by simp
  qed
  with elems show ?case by (simp add: y list_all_iff)
qed



lemma filter_not_mem [simp]: "filter (\<lambda>k. k \<notin> set ks) ks = []"
  by (simp add: filter_empty_conv)







subsection \<open>Sorting a rearranged list\<close>

lemma sortable_Seq_keys:
  assumes "sortable (Seq A)" "should_sort_list A"
  shows "Map [] \<notin> set A"
  using assms by simp




subsection \<open>Where the records of a call come from\<close>







lemma py_type_neq: "py_type a \<noteq> py_type b \<Longrightarrow> a \<noteq> b"
  by auto


subsection \<open>Decimal digits\<close>

lemma of_char_digit: "n < 10 \<Longrightarrow> (of_char (char_of (48 + n)) :: nat) = 48 + n"
proof -
  assume "n < 10"
  have "(of_char (char_of (48 + n)) :: nat) = (48 + n) mod 256"
    by (rule of_char_of)
  also have "\<dots> = 48 + n" using \<open>n < 10\<close> by (intro mod_less) arith
  finally show ?thesis .
qed

lemma digit_val_digit_char: "n < 10 \<Longrightarrow> digit_val (digit_char n) = n"
  unfolding digit_val_def digit_char_def
  by (simp only: if_True of_char_digit add_diff_cancel_left')

lemma digits_val_snoc: "digits_val (s @ [c]) = 10 * digits_val s + digit_val c"
  unfolding digits_val_def by (simp only: foldl_append foldl.simps)

lemma digits_val_single: "digits_val [c] = digit_val c"
  unfolding digits_val_def by (simp only: foldl.simps mult_zero_right add_0)

lemma digits_val_str_nat: "digits_val (str_nat n) = n"
proof (induction n rule: str_nat.induct)
  case (1 n)
  show ?case
  proof (cases "n < 10")
    case True
    have "str_nat n = [digit_char n]"
      by (simp only: str_nat.simps [of n] True if_True)
    then show ?thesis
      by (simp only: digits_val_single digit_val_digit_char [OF True])
  next
    case False
    have m: "n mod 10 < 10" by (rule mod_less_divisor) (rule zero_less_numeral)
    have "str_nat n = str_nat (n div 10) @ [digit_char (n mod 10)]"
      by (simp only: str_nat.simps [of n] False if_False)
    then have "digits_val (str_nat n)
        = 10 * digits_val (str_nat (n div 10)) + digit_val (digit_char (n mod 10))"
      by (simp only: digits_val_snoc)
    also have "\<dots> = 10 * (n div 10) + n mod 10"
      by (simp only: "1.IH" [OF False] digit_val_digit_char [OF m])
    also have "\<dots> = n" by (rule mult_div_mod_eq)
    finally show ?thesis .
  qed
qed

lemma str_nat_inj: "str_nat m = str_nat n \<Longrightarrow> m = n"
  by (metis digits_val_str_nat)

lemma bracketed_brackets: "bracketed (CHR ''['' # s @ '']'')"
  by (simp add: bracketed_def)

subsection \<open>Sort keys that normalization keeps\<close>

lemma getitem_normalize:
  "normalize_values kvs = Inr kvs' \<Longrightarrow> k \<in> fst ` set kvs \<Longrightarrow>
     normalize_data (getitem kvs k) = Inr (getitem kvs' k)"
proof (induction kvs arbitrary: kvs')
  case Nil
  then show ?case by simp
next
  case (Cons kv kvs)
  from Cons.prems(1) obtain v rest where v: "normalize_data (snd kv) = Inr v"
    and rest: "normalize_values kvs = Inr rest" and kvs': "kvs' = (fst kv, v) # rest"
    by (auto split: sum.splits)
  show ?case
  proof (cases "k = fst kv")
    case True
    then show ?thesis using v by (cases kv) (simp add: getitem_def kvs')
  next
    case False
    with Cons.prems(2) have "k \<in> fst ` set kvs" by auto
    from Cons.IH [OF rest this] False show ?thesis
      by (cases kv) (simp add: getitem_def kvs')
  qed
qed

lemma is_scalar_normalize: "is_scalar x \<Longrightarrow> normalize_data x = Inr y \<Longrightarrow> y = x"
  by (cases x) auto

lemma key_is_scalar_normalize:
  assumes "key_is_scalar x" "normalize_data x = Inr y"
  shows "get_sort_key y = get_sort_key x"
proof (cases x)
  case (Scalar s)
  with assms show ?thesis by auto
next
  case (Seq xs)
  with assms show ?thesis by simp
next
  case (Map kvs)
  with assms(2) obtain kvs' where y: "y = Map kvs'" and n: "normalize_values kvs = Inr kvs'"
    by (auto split: sum.splits)
  have k: "map fst kvs' = map fst kvs" using n by (rule normalize_values_keys)
  then have hk: "has_key kvs' c = has_key kvs c" for c by (simp add: has_key_def)
  have same: "getitem kvs' c = getitem kvs c" if "c \<in> fst ` set kvs" "is_scalar (getitem kvs c)" for c
    using is_scalar_normalize [OF that(2) getitem_normalize [OF n that(1)]] .
  show ?thesis
  proof (cases "has_key kvs ''name''")
    case True
    then have "''name'' \<in> fst ` set kvs" by (simp add: has_key_def)
    moreover have "is_scalar (getitem kvs ''name'')" using assms(1) True Map by simp
    ultimately show ?thesis using True by (simp add: Map y hk same)
  next
    case False
    show ?thesis
    proof (cases kvs)
      case Nil
      with k show ?thesis by (simp add: Map y)
    next
      case (Cons kv rest)
      with k obtain kv' rest' where c': "kvs' = kv' # rest'" and f: "fst kv' = fst kv"
        by (cases kvs') auto
      have "fst kv \<in> fst ` set kvs" using Cons by simp
      moreover have "is_scalar (getitem kvs (fst kv))" using assms(1) False Map Cons by simp
      ultimately have "getitem kvs' (fst kv) = getitem kvs (fst kv)" by (rule same)
      then show ?thesis using False hk [of "''name''"] by (simp add: Map y Cons c' f)
    qed
  qed
qed

lemma list_all2_map_eq:
  "list_all2 (\<lambda>x y. f y = f x) xs ys \<Longrightarrow> map f ys = map f xs"
  by (induction xs ys rule: list_all2_induct) simp_all

lemma sort_key_of_cong: "get_sort_key y = get_sort_key x \<Longrightarrow> sort_key_of y = sort_key_of x"
  by (simp add: sort_key_of_def)


section \<open>The scenarios of the specification\<close>

text \<open>Scenario 1 (a key only in \<open>right\<close>) and scenario 4 (a shorter list), under every
  set order; scenario 2 is the witness of C1, scenario 3 is in C4 and scenario 5 in the
  witness of C5.\<close>

lemma scenario_1:
  "compare so (Map [(''a'', Scalar (SInt 1))])
      (Map [(''a'', Scalar (SInt 1)), (''b'', Scalar (SInt 2))]) [] []
   = Inr [\<lparr>change_type = ADDED, path = [''b''], old_value = py_None,
            new_value = Scalar (SInt 2)\<rparr>]"
  by (simp add: compare_dicts_def getitem_def field_segment_def)

lemma scenario_4:
  "compare so (Map [(''x'', Seq [Scalar (SInt 1), Scalar (SInt 2), Scalar (SInt 3)])])
      (Map [(''x'', Seq [Scalar (SInt 1), Scalar (SInt 2)])]) [] []
   = Inr [\<lparr>change_type = REMOVED, path = [''x'', ''[2]''], old_value = Scalar (SInt 3),
            new_value = py_None\<rparr>]"
proof -
  have u: "[0..<2] = [0, 1]" "[2..<3] = [2]"
    by (simp_all add: upt_rec)
  have s: "index_segment 2 = ''[2]''"
    by code_simp
  then have s': "index_segment (Suc (Suc 0)) = ''[2]''"
    by (simp add: numeral_2_eq_2)
  show ?thesis
    by (simp add: compare_dicts_def compare_lists_def compare_ordered_lists_def getitem_def
        field_segment_def u s s')
qed

section \<open>C1: a sorted list against a rearrangement of it\<close>




section \<open>C2: a document against itself\<close>

text \<open>
  C2 says that \<open>compare(X, X)\<close> yields an empty change set for every document.  On
  \<open>X = [{name: a}, {}]\<close> the list is sorted because its first item has \<open>name\<close>, and
  \<open>_get_sort_key\<close> raises \<open>StopIteration\<close> on the empty dict: no change set is
  produced, whatever the path and the records so far.  (On every document that is
  \<open>sortable\<close> the call does return and appends no record: \<open>compare_self\<close> above.)
\<close>

theorem C2_compare_self_raises:
  "compare so (Seq [Map [(''name'', Scalar (SStr ''a''))], Map []])
              (Seq [Map [(''name'', Scalar (SStr ''a''))], Map []]) p ds = Inl StopIteration"
  by (simp add: has_key_def sorted_py_def)

section \<open>C3: which lists are sorted\<close>

text \<open>
  C3, as the specification words it, fails on the list \<open>[{}]\<close>: its first element is
  a mapping and all elements have the same (empty) key set, but
  \<open>_should_sort_list\<close> returns \<open>False\<close> at \<open>if not first_keys\<close>.
\<close>

theorem C3_empty_mapping_counterexample:
  "spec_qualifies [Map []] \<and> \<not> should_sort_list [Map []]"
  by (simp add: spec_qualifies_def)

text \<open>
  C3 as amended: a list is sorted if and only if it is not empty, its first element is
  a mapping with at least one key, and either that element has the key \<open>name\<close> or
  every element is a mapping and all have the same key set.  The empty list and lists
  of empty mappings are never sorted.
\<close>

theorem C3_should_sort_list_iff:
  "(should_sort_list xs \<longleftrightarrow>
      xs \<noteq> [] \<and> is_mapping (hd xs) \<and> key_set (hd xs) \<noteq> {} \<and>
      (''name'' \<in> key_set (hd xs) \<or>
       (list_all is_mapping xs \<and> list_all (\<lambda>x. key_set x = key_set (hd xs)) xs)))
   \<and> \<not> should_sort_list []
   \<and> (list_all (\<lambda>x. x = Map []) xs \<longrightarrow> \<not> should_sort_list xs)"
proof -
  have iff: "should_sort_list xs \<longleftrightarrow>
      xs \<noteq> [] \<and> is_mapping (hd xs) \<and> key_set (hd xs) \<noteq> {} \<and>
      (''name'' \<in> key_set (hd xs) \<or>
       (list_all is_mapping xs \<and> list_all (\<lambda>x. key_set x = key_set (hd xs)) xs))"
  proof (cases xs)
    case Nil
    then show ?thesis by simp
  next
    case (Cons x rest)
    show ?thesis
    proof (cases x)
      case (Map kvs)
      have r: "list_all (same_keys (fst ` set kvs)) rest \<longleftrightarrow>
          list_all is_mapping rest \<and> list_all (\<lambda>x. key_set x = fst ` set kvs) rest"
        by (induction rest) (auto simp: same_keys_iff)
      show ?thesis
        unfolding Cons Map by (simp add: has_key_def r)
    qed (simp_all add: Cons)
  qed
  have "\<not> should_sort_list xs" if "list_all (\<lambda>x. x = Map []) xs"
    using that by (cases xs) auto
  with iff show ?thesis by simp
qed

text \<open>C3, witness: two mappings with the keys \<open>id\<close> and \<open>v\<close> in different order are
  sorted; mappings with different keys and empty mappings are not.\<close>

theorem C3_should_sort_list_witness:
  "should_sort_list [Map [(''id'', Scalar (SInt 1)), (''v'', Scalar SNull)],
                     Map [(''v'', Scalar SNull), (''id'', Scalar (SInt 2))]]
   \<and> \<not> should_sort_list [Map [(''id'', Scalar (SInt 1))], Map [(''v'', Scalar SNull)]]
   \<and> \<not> should_sort_list [Map [], Map []]"
  using C3_should_sort_list_iff [of "[Map [(''id'', Scalar (SInt 1)), (''v'', Scalar SNull)],
                     Map [(''v'', Scalar SNull), (''id'', Scalar (SInt 2))]]"]
    C3_should_sort_list_iff [of "[Map [(''id'', Scalar (SInt 1))], Map [(''v'', Scalar SNull)]]"]
    C3_should_sort_list_iff [of "[Map [], Map []]"]
  by (simp add: insert_commute)

section \<open>C4: value against valueFrom\<close>

lemma env_example_records:
  "compare so
     (Map [(''env'', Seq [Map [(''name'', Scalar (SStr ''A'')),
                               (''value'', Scalar (SStr ''1''))]])])
     (Map [(''env'', Seq [Map [(''name'', Scalar (SStr ''A'')),
                               (''valueFrom'', Map [(''secretKeyRef'', Scalar (SStr ''s''))])]])])
     [] []
   = Inr [\<lparr>change_type = ADDED, path = [''env'', ''[A]'', ''valueFrom''],
            old_value = py_None, new_value = Map [(''secretKeyRef'', Scalar (SStr ''s''))]\<rparr>,
          \<lparr>change_type = REMOVED, path = [''env'', ''[A]'', ''value''],
            old_value = Scalar (SStr ''1''), new_value = py_None\<rparr>]"
  by (simp add: compare_dicts_def compare_lists_def compare_sorted_lists_def
      has_key_def sorted_py_def getitem_def field_segment_def key_segment_def)

lemma env_example_report:
  "format_as_tree
     [\<lparr>change_type = ADDED, path = [''env'', ''[A]'', ''valueFrom''],
        old_value = py_None, new_value = Map [(''secretKeyRef'', Scalar (SStr ''s''))]\<rparr>,
      \<lparr>change_type = REMOVED, path = [''env'', ''[A]'', ''value''],
        old_value = Scalar (SStr ''1''), new_value = py_None\<rparr>]
   = Inr [HeaderLine 0 ''env'', HeaderLine 1 ''[A]'',
          AddDiffLine \<lparr>change_type = REMOVED, path = [''env'', ''[A]'', ''value''],
                        old_value = Scalar (SStr ''1''), new_value = py_None\<rparr> 2,
          AddDiffLine \<lparr>change_type = ADDED, path = [''env'', ''[A]'', ''valueFrom''],
                        old_value = py_None,
                        new_value = Map [(''secretKeyRef'', Scalar (SStr ''s''))]\<rparr> 2]"
  by code_simp

lemma combine_removed_value_added_valueFrom:
  "combine_complementary_env_diffs
     [\<lparr>change_type = ADDED, path = [''spec'', ''env'', ''[A]'', ''valueFrom''],
        old_value = py_None, new_value = Map [(''secretKeyRef'', Scalar (SStr ''s''))]\<rparr>,
      \<lparr>change_type = REMOVED, path = [''spec'', ''env'', ''[A]'', ''value''],
        old_value = Scalar (SStr ''1''), new_value = py_None\<rparr>]
   = [\<lparr>change_type = REMOVED, path = [''spec'', ''env'', ''[A]'', ''value''],
        old_value = Scalar (SStr ''1''), new_value = py_None\<rparr>,
      \<lparr>change_type = MODIFIED, path = [''spec'', ''env'', ''[A]''],
        old_value = Scalar (SStr ''1''),
        new_value = Map [(''secretKeyRef'', Scalar (SStr ''s''))]\<rparr>]"
  by code_simp

text \<open>
  C4 says that an added \<open>valueFrom\<close> and a removed \<open>value\<close> of one record are merged
  into a single Modified record.  \<open>_combine_complementary_env_diffs\<close> returns two
  records for that pair: its first loop appends the removed \<open>value\<close> record before the
  second loop merges the pair.  For the documents of the specification's own example,
  where \<open>env\<close> is the top-level key, \<open>_tree_to_diff_lines\<close> starts with
  \<open>parent_key = ""\<close> and does not merge at all: under every set order the report has
  the two records apart.
\<close>

theorem C4_value_to_valueFrom_not_merged:
  "combine_complementary_env_diffs
     [\<lparr>change_type = ADDED, path = [''spec'', ''env'', ''[A]'', ''valueFrom''],
        old_value = py_None, new_value = Map [(''secretKeyRef'', Scalar (SStr ''s''))]\<rparr>,
      \<lparr>change_type = REMOVED, path = [''spec'', ''env'', ''[A]'', ''value''],
        old_value = Scalar (SStr ''1''), new_value = py_None\<rparr>]
   = [\<lparr>change_type = REMOVED, path = [''spec'', ''env'', ''[A]'', ''value''],
        old_value = Scalar (SStr ''1''), new_value = py_None\<rparr>,
      \<lparr>change_type = MODIFIED, path = [''spec'', ''env'', ''[A]''],
        old_value = Scalar (SStr ''1''),
        new_value = Map [(''secretKeyRef'', Scalar (SStr ''s''))]\<rparr>]
   \<and> main_tree so
        (Map [(''env'', Seq [Map [(''name'', Scalar (SStr ''A'')),
                                  (''value'', Scalar (SStr ''1''))]])])
        (Map [(''env'', Seq [Map [(''name'', Scalar (SStr ''A'')),
                                  (''valueFrom'', Map [(''secretKeyRef'', Scalar (SStr ''s''))])]])])
     = Inr [HeaderLine 0 ''env'', HeaderLine 1 ''[A]'',
            AddDiffLine \<lparr>change_type = REMOVED, path = [''env'', ''[A]'', ''value''],
                          old_value = Scalar (SStr ''1''), new_value = py_None\<rparr> 2,
            AddDiffLine \<lparr>change_type = ADDED, path = [''env'', ''[A]'', ''valueFrom''],
                          old_value = py_None,
                          new_value = Map [(''secretKeyRef'', Scalar (SStr ''s''))]\<rparr> 2]"
  using combine_removed_value_added_valueFrom env_example_records [of so] env_example_report
  by (simp add: main_tree_def)

section \<open>C5: the fields of a record\<close>




section \<open>C6: the order of the records\<close>




section \<open>C7: what a call of compare depends on\<close>

text \<open>
  C7 says that the change set of an invocation is determined by \<open>left\<close>, \<open>right\<close> and
  \<open>path\<close> alone and holds no record of an earlier comparison of the same engine.
  \<open>compare\<close> appends to \<open>self.differences\<close> and never empties it: the same call on
  a fresh engine and on the engine that has made it once leaves one record and two.
\<close>

theorem C7_second_call_counterexample:
  "compare (\<lambda>ks. ks) (Scalar (SInt 1)) (Scalar (SInt 2)) [] []
     = Inr [\<lparr>change_type = MODIFIED, path = [], old_value = Scalar (SInt 1),
              new_value = Scalar (SInt 2)\<rparr>]
   \<and> compare (\<lambda>ks. ks) (Scalar (SInt 1)) (Scalar (SInt 2)) []
       [\<lparr>change_type = MODIFIED, path = [], old_value = Scalar (SInt 1),
          new_value = Scalar (SInt 2)\<rparr>]
     = Inr [\<lparr>change_type = MODIFIED, path = [], old_value = Scalar (SInt 1),
              new_value = Scalar (SInt 2)\<rparr>,
            \<lparr>change_type = MODIFIED, path = [], old_value = Scalar (SInt 1),
              new_value = Scalar (SInt 2)\<rparr>]"
  by simp

text \<open>
  C7 as amended: the records that an invocation appends are determined by \<open>left\<close>,
  \<open>right\<close> and \<open>path\<close> (and the set order of the interpreter).  On an engine that
  holds the records \<open>ds\<close> it leaves \<open>ds\<close> followed by the records it leaves on a fresh
  engine, and it raises exactly when it raises on a fresh engine.
\<close>

theorem C7_compare_appends:
  "compare so left right p ds =
     (case compare so left right p [] of Inl e \<Rightarrow> Inl e | Inr rs \<Rightarrow> Inr (ds @ rs))"
  using compare_acc [of so left right p ds] by (simp add: emit_def)

section \<open>C8: the tree report on a dotted top-level key\<close>

lemma dotted_key_records:
  "compare so
     (Map [(''a.b'', Map [(''p'', Map [(''K'', Scalar (SInt 1))]),
                          (''q'', Map [(''K'', Map [(''z'', Scalar (SInt 1))])])])])
     (Map [(''a.b'', Map [(''p'', Map [(''K'', Scalar (SInt 2))]),
                          (''q'', Map [(''K'', Map [(''z'', Scalar (SInt 2))])])])]) [] []
   \<in> {Inr [\<lparr>change_type = MODIFIED, path = [''a.b'', ''p'', ''K''],
              old_value = Scalar (SInt 1), new_value = Scalar (SInt 2)\<rparr>,
            \<lparr>change_type = MODIFIED, path = [''a.b'', ''q'', ''K'', ''z''],
              old_value = Scalar (SInt 1), new_value = Scalar (SInt 2)\<rparr>],
       Inr [\<lparr>change_type = MODIFIED, path = [''a.b'', ''q'', ''K'', ''z''],
              old_value = Scalar (SInt 1), new_value = Scalar (SInt 2)\<rparr>,
            \<lparr>change_type = MODIFIED, path = [''a.b'', ''p'', ''K''],
              old_value = Scalar (SInt 1), new_value = Scalar (SInt 2)\<rparr>]}"
proof -
  have "set_iter so [''p'', ''q''] = [''p'', ''q''] \<or> set_iter so [''p'', ''q''] = [''q'', ''p'']"
    by (rule set_iter_two) simp
  then show ?thesis
    by (auto simp: compare_dicts_def getitem_def field_segment_def)
qed

lemma dotted_key_report:
  "format_as_tree
     [\<lparr>change_type = MODIFIED, path = [''a.b'', ''p'', ''K''],
              old_value = Scalar (SInt 1), new_value = Scalar (SInt 2)\<rparr>,
            \<lparr>change_type = MODIFIED, path = [''a.b'', ''q'', ''K'', ''z''],
              old_value = Scalar (SInt 1), new_value = Scalar (SInt 2)\<rparr>] = Inl TypeError"
  "format_as_tree
     [\<lparr>change_type = MODIFIED, path = [''a.b'', ''q'', ''K'', ''z''],
              old_value = Scalar (SInt 1), new_value = Scalar (SInt 2)\<rparr>,
            \<lparr>change_type = MODIFIED, path = [''a.b'', ''p'', ''K''],
              old_value = Scalar (SInt 1), new_value = Scalar (SInt 2)\<rparr>] = Inl AttributeError"
  by code_simp+

text \<open>
  C8 says that rendering the tree report never raises.  For the top-level key \<open>a.b\<close>,
  \<open>_grouped_diffs_to_lines\<close> splits the group key at the dot and takes two segments
  off every path where the group key is one; the records at \<open>a.b / p / K\<close> and
  \<open>a.b / q / K / z\<close> then meet at \<open>K\<close>, one as a leaf and one as a branch, and
  \<open>_insert_diff_into_tree\<close> raises out of \<open>format_as_tree\<close>: \<open>TypeError\<close> when the
  set order puts \<open>p\<close> first, \<open>AttributeError\<close> when it puts \<open>q\<close> first.
\<close>

theorem C8_format_as_tree_raises:
  "main_tree so
     (Map [(''a.b'', Map [(''p'', Map [(''K'', Scalar (SInt 1))]),
                          (''q'', Map [(''K'', Map [(''z'', Scalar (SInt 1))])])])])
     (Map [(''a.b'', Map [(''p'', Map [(''K'', Scalar (SInt 2))]),
                          (''q'', Map [(''K'', Map [(''z'', Scalar (SInt 2))])])])])
   \<in> {Inl TypeError, Inl AttributeError}"
  using dotted_key_records [of so] by (auto simp: main_tree_def dotted_key_report)

section \<open>C9: the segments of a path\<close>

text \<open>
  C9 says that a segment made from a field name never equals a segment made from an
  index or from a sort key.  A path is a list of strings: for the field \<open>[0]\<close> that
  holds a list, the record of the first item has the path \<open>[0] / [0]\<close>, its first
  segment from the field name and its second from the index 0, and the segment of the
  index 0 is the segment of the sort key \<open>0\<close>.
\<close>

theorem C9_same_segment_counterexample:
  "compare (\<lambda>ks. ks) (Map [(''[0]'', Seq [Scalar (SInt 1)])])
      (Map [(''[0]'', Seq [Scalar (SInt 2)])]) [] []
     = Inr [\<lparr>change_type = MODIFIED, path = [field_segment ''[0]'', index_segment 0],
              old_value = Scalar (SInt 1), new_value = Scalar (SInt 2)\<rparr>]
   \<and> field_segment ''[0]'' = index_segment 0
   \<and> index_segment 0 = key_segment ''0''"
  by code_simp

text \<open>
  C9 as amended: a segment is a plain string, the field name itself, \<open>[i]\<close> for the
  index \<open>i\<close> in decimal, \<open>[k]\<close> for the sort key \<open>k\<close>.  Within one kind, different
  names, indices or keys give different segments.  A field name that does not both
  start with \<open>[\<close> and end with \<open>]\<close> differs from every index and key segment; the
  segment of the index \<open>i\<close> is the segment of the key that writes \<open>i\<close>, and a field
  named like a key segment is that segment.
\<close>

theorem C9_segments:
  "(field_segment k = field_segment k' \<longleftrightarrow> k = k')
   \<and> (index_segment i = index_segment j \<longleftrightarrow> i = j)
   \<and> (key_segment k = key_segment k' \<longleftrightarrow> k = k')
   \<and> (\<not> bracketed k \<longrightarrow> field_segment k \<noteq> index_segment i \<and> field_segment k \<noteq> key_segment k')
   \<and> index_segment i = key_segment (str_nat i)
   \<and> field_segment (key_segment k) = key_segment k"
proof -
  have a: "index_segment i = index_segment j \<longleftrightarrow> i = j"
  proof
    assume "index_segment i = index_segment j"
    then have "str_nat i = str_nat j" by (simp add: index_segment_def)
    then show "i = j" by (rule str_nat_inj)
  qed simp
  have b: "field_segment k \<noteq> index_segment i \<and> field_segment k \<noteq> key_segment k'"
    if "\<not> bracketed k"
  proof -
    have "k \<noteq> CHR ''['' # str_nat i @ '']''" "k \<noteq> CHR ''['' # k' @ '']''"
      using that bracketed_brackets [of "str_nat i"] bracketed_brackets [of k'] by auto
    then show ?thesis
      by (simp add: field_segment_def index_segment_def key_segment_def)
  qed
  have c: "key_segment k = key_segment k' \<longleftrightarrow> k = k'"
    by (simp add: key_segment_def)
  have d: "index_segment i = key_segment (str_nat i)"
    by (simp add: index_segment_def key_segment_def)
  from a b c d show ?thesis
    by (simp add: field_segment_def)
qed

text \<open>C9, witness: the field \<open>name\<close> against the index 3 and the key \<open>web\<close>.\<close>

theorem C9_segments_witness:
  "\<not> bracketed ''name''
   \<and> field_segment ''name'' \<noteq> index_segment 3
   \<and> field_segment ''name'' \<noteq> key_segment ''web''"
proof -
  have h: "\<not> bracketed ''name''" by (simp add: bracketed_def)
  from C9_segments [of "''name''" "''web''" 3 3] h show ?thesis by blast
qed

section \<open>C10: normalizing twice\<close>

text \<open>
  C10 says that \<open>normalize_data\<close> is idempotent, also where the sort key of an item
  is computed from a nested structure that normalization reorders.
  \<open>normalize_data\<close> sorts a list by the keys of the items as they are and
  normalizes the items afterwards.  With two items whose \<open>name\<close> is a list, the keys
  are \<open>[{'name': 'b'}, {'name': 'a'}]\<close> and \<open>[{'name': 'a'}, {'name': 'c'}]\<close> before
  the inner lists are sorted and \<open>[{'name': 'a'}, {'name': 'b'}]\<close> and
  \<open>[{'name': 'a'}, {'name': 'c'}]\<close> after: the first result is not sorted by its own
  keys, and normalizing it swaps the two items.
\<close>

theorem C10_nested_key_counterexample:
  "normalize_data
     (Seq [Map [(''name'', Seq [Map [(''name'', Scalar (SStr ''b''))],
                                Map [(''name'', Scalar (SStr ''a''))]])],
           Map [(''name'', Seq [Map [(''name'', Scalar (SStr ''a''))],
                                Map [(''name'', Scalar (SStr ''c''))]])]])
   = Inr (Seq [Map [(''name'', Seq [Map [(''name'', Scalar (SStr ''a''))],
                                    Map [(''name'', Scalar (SStr ''c''))]])],
               Map [(''name'', Seq [Map [(''name'', Scalar (SStr ''a''))],
                                    Map [(''name'', Scalar (SStr ''b''))]])]])
   \<and> normalize_data
     (Seq [Map [(''name'', Seq [Map [(''name'', Scalar (SStr ''a''))],
                                Map [(''name'', Scalar (SStr ''c''))]])],
           Map [(''name'', Seq [Map [(''name'', Scalar (SStr ''a''))],
                                Map [(''name'', Scalar (SStr ''b''))]])]])
   = Inr (Seq [Map [(''name'', Seq [Map [(''name'', Scalar (SStr ''a''))],
                                    Map [(''name'', Scalar (SStr ''b''))]])],
               Map [(''name'', Seq [Map [(''name'', Scalar (SStr ''a''))],
                                    Map [(''name'', Scalar (SStr ''c''))]])]])"
  by code_simp


text \<open>
  C10 as amended: on a document in which every sort key of a sorted list is computed
  from a scalar (\<open>scalar_keys\<close>), the result of \<open>normalize_data\<close> is a fixed point
  of \<open>normalize_data\<close>.
\<close>

theorem C10_normalize_idempotent:
  "scalar_keys x \<Longrightarrow> normalize_data x = Inr y \<Longrightarrow> normalize_data y = Inr y"
proof (induction x arbitrary: y)
  case (Scalar s)
  then show ?case by auto
next
  case (Map kvs)
  from Map.prems(2) obtain kvs' where y: "y = Map kvs'" and n: "normalize_values kvs = Inr kvs'"
    by (auto split: sum.splits)
  from n have l2: "list_all2 (\<lambda>kv kv'. fst kv' = fst kv \<and> normalize_data (snd kv) = Inr (snd kv'))
      kvs kvs'" by (simp add: normalize_values_iff)
  have "normalize_data (snd kv') = Inr (snd kv')" if "kv' \<in> set kvs'" for kv'
  proof -
    from list_all2_memR [OF l2 that]
    obtain kv where kv: "kv \<in> set kvs" "normalize_data (snd kv) = Inr (snd kv')" by blast
    have "scalar_keys (snd kv)" using Map.prems(1) kv(1) by (auto simp: list_all_iff)
    from Map.IH [of kv "snd kv" "snd kv'", OF kv(1) _ this kv(2)] show ?thesis
      by (cases kv) (simp add: snds.simps)
  qed
  then have "normalize_values kvs' = Inr kvs'"
    by (simp add: normalize_values_iff list_all2_same)
  then show ?case by (simp add: y)
next
  case (Seq xs)
  define xs' where "xs' = (if should_sort_list xs then sort_key sort_key_of xs else xs)"
  have set': "set xs' = set xs" by (simp add: xs'_def)
  from Seq.prems(2) have ok: "should_sort_list xs \<longrightarrow> Map [] \<notin> set xs"
    using normalize_data_Seq_ok [of xs] by blast
  from Seq.prems(2) ok obtain ys where y: "y = Seq ys" and n: "normalize_items xs' = Inr ys"
    by (auto simp: xs'_def sorted_py_eq split: sum.splits if_splits)
  from n have l2: "list_all2 (\<lambda>x y. normalize_data x = Inr y) xs' ys"
    by (simp add: normalize_items_iff)
  have sk: "scalar_keys x" if "x \<in> set xs" for x
    using Seq.prems(1) that by (simp add: list_all_iff)
  have fixp: "normalize_data z = Inr z" if "z \<in> set ys" for z
  proof -
    from list_all2_memR [OF l2 that] set'
    obtain x where "x \<in> set xs" "normalize_data x = Inr z" by auto
    then show ?thesis using Seq.IH sk by blast
  qed
  then have items: "normalize_items ys = Inr ys"
    by (simp add: normalize_items_iff list_all2_same)
  show ?case
  proof (cases "should_sort_list ys")
    case False
    then show ?thesis by (simp add: y items)
  next
    case True
    have sy: "sortable (Seq ys)" using Seq.prems(2) y normalize_sortable by blast
    with True have nil: "Map [] \<notin> set ys" by simp
    have ssx: "should_sort_list xs"
    proof (rule ccontr)
      assume "\<not> should_sort_list xs"
      then have "xs' = xs" by (simp add: xs'_def)
      with n have "map shape ys = map shape xs" by (simp add: normalize_items_shape)
      then have "should_sort_list ys = should_sort_list xs" by (rule should_sort_shape)
      with True \<open>\<not> should_sort_list xs\<close> show False by simp
    qed
    then have xs'_eq: "xs' = sort_key sort_key_of xs" by (simp add: xs'_def)
    have kx: "key_is_scalar x" if "x \<in> set xs'" for x
      using Seq.prems(1) ssx that set' by (simp add: list_all_iff)
    have "list_all2 (\<lambda>x y. sort_key_of y = sort_key_of x) xs' ys"
      using l2 kx
      by (auto intro!: list_all2_mono [OF l2] sort_key_of_cong key_is_scalar_normalize
          dest: list_all2_lengthD simp: list_all2_conv_all_nth)
    then have "map sort_key_of ys = map sort_key_of xs'" by (rule list_all2_map_eq)
    moreover have "sorted (map sort_key_of xs')" by (simp add: xs'_eq)
    ultimately have "sorted (map sort_key_of ys)" by simp
    then have "sort_key sort_key_of ys = ys" by (rule sort_key_id_if_sorted)
    then have "sorted_py ys = Inr ys" using nil by (simp add: sorted_py_eq)
    then show ?thesis using True by (simp add: y items)
  qed
qed


text \<open>C10, witness: two named items out of order, each with a list as another field.\<close>

theorem C10_normalize_idempotent_witness:
  "scalar_keys (Seq [Map [(''name'', Scalar (SStr ''y'')), (''v'', Seq [Scalar (SInt 2)])],
                     Map [(''name'', Scalar (SStr ''x'')), (''v'', Seq [Scalar (SInt 1)])]])
   \<and> normalize_data
       (Seq [Map [(''name'', Scalar (SStr ''y'')), (''v'', Seq [Scalar (SInt 2)])],
             Map [(''name'', Scalar (SStr ''x'')), (''v'', Seq [Scalar (SInt 1)])]])
     = Inr (Seq [Map [(''name'', Scalar (SStr ''x'')), (''v'', Seq [Scalar (SInt 1)])],
                 Map [(''name'', Scalar (SStr ''y'')), (''v'', Seq [Scalar (SInt 2)])]])
   \<and> normalize_data
       (Seq [Map [(''name'', Scalar (SStr ''x'')), (''v'', Seq [Scalar (SInt 1)])],
             Map [(''name'', Scalar (SStr ''y'')), (''v'', Seq [Scalar (SInt 2)])]])
     = Inr (Seq [Map [(''name'', Scalar (SStr ''x'')), (''v'', Seq [Scalar (SInt 1)])],
                 Map [(''name'', Scalar (SStr ''y'')), (''v'', Seq [Scalar (SInt 2)])]])"
proof -
  have s: "scalar_keys (Seq [Map [(''name'', Scalar (SStr ''y'')), (''v'', Seq [Scalar (SInt 2)])],
                     Map [(''name'', Scalar (SStr ''x'')), (''v'', Seq [Scalar (SInt 1)])]])"
    by (simp add: has_key_def getitem_def)
  have n: "normalize_data
       (Seq [Map [(''name'', Scalar (SStr ''y'')), (''v'', Seq [Scalar (SInt 2)])],
             Map [(''name'', Scalar (SStr ''x'')), (''v'', Seq [Scalar (SInt 1)])]])
     = Inr (Seq [Map [(''name'', Scalar (SStr ''x'')), (''v'', Seq [Scalar (SInt 1)])],
                 Map [(''name'', Scalar (SStr ''y'')), (''v'', Seq [Scalar (SInt 2)])]])"
    by code_simp
  from C10_normalize_idempotent [OF s n] s n show ?thesis by simp
qed

end
